theory Spec2Isabelle
  imports Main "HOL-Library.Word"
begin

section \<open>The in-memory stream of the async output service\<close>

text \<open>
  This theory embeds \<^verbatim>\<open>server/engine/in_memory_stream_impl.go\<close>: the bounded
  buffer behind one stream, with its two ways of sending (circular overwrite and bounded
  blocking), its long-poll receive and its stop.

  The Go code runs on channels, \<^verbatim>\<open>select\<close> and timers. The embedding keeps
  the source's structure (one definition per Go function, the arms of every
  \<^verbatim>\<open>select\<close> in the source's order) and fixes the following reading of the
  runtime:

  \<^item> A call runs alone: while it runs no other goroutine acts on the stream, apart from
    the concurrent senders that the overwrite loop is given explicitly (see
    \<open>intruders\<close> below). The mutex of the struct is therefore always free when a call
    asks for it, and is not part of the state.
  \<^item> A \<^verbatim>\<open>select\<close> takes one of the arms that can proceed; which one, when
    several can, is an input of the call (\<open>pick\<close>). With no arm able to proceed it
    takes its \<^verbatim>\<open>default\<close> arm, or, where it has a \<^verbatim>\<open>time.After\<close>
    arm instead, waits for the deadline and takes that arm.
  \<^item> Of time the model keeps what decides a result. \<^verbatim>\<open>time.After(d)\<close> with
    \<open>d \<le> 0\<close> is due at once: its arm can proceed when the \<^verbatim>\<open>select\<close> is
    entered and competes with the other arms. With \<open>d > 0\<close> the deadline lies after
    that moment, and the arm is taken only when the wait was in vain. The duration is
    computed as the code computes it, in 64 bits with wrap-around.
  \<^item> A call either returns, panics (a send on or a close of a closed channel, a
    negative channel size) or blocks for ever (a receive on an empty open channel that
    nobody sends on).
\<close>

subsection \<open>Data\<close>

text \<open>\<^verbatim>\<open>uuid.UUID\<close> is an array of 16 bytes.\<close>

type_synonym UUID = "128 word"

text \<open>
  \<^verbatim>\<open>StreamEntry\<close>. The payload type \<^verbatim>\<open>OutputType\<close> is declared outside
  this file and \<^verbatim>\<open>time.Time\<close> belongs to the standard library: both are type
  parameters here.
\<close>

record ('o, 't) StreamEntry =
  OutputUUID :: UUID
  Output :: 'o
  Timestamp :: 't

text \<open>
  Modelled from the spec: \<^verbatim>\<open>InternalReceiveResponse\<close> is declared in a file of
  the package that is not at hand. It is the response of a receive, with the UUID, the
  payload and the timestamp of an entry; these are the three fields
  \<^verbatim>\<open>Receive\<close> fills, under the names it uses.
\<close>

record ('o, 't) InternalReceiveResponse =
  OutputUuid :: UUID
  Output :: 'o
  Timestamp :: 't

text \<open>
  Modelled from the spec: \<^verbatim>\<open>ErrorType\<close> is declared in a file of the package
  that is not at hand. These are the error kinds of the spec under the names of the
  constants this file returns: ok, stopped, invalid-request, circular-overflow-exhausted
  and waiting-timeout, five distinct values. No other constant of the type occurs in
  the file.
\<close>

datatype ErrorType =
    ErrorTypeNone
  | ErrorTypeStreamStopped
  | ErrorTypeInvalidRequest
  | ErrorTypeCircularBufferIterationLimit
  | ErrorTypeWaitingTimeout

text \<open>
  The \<^verbatim>\<open>error\<close> values the file builds, one constructor for each: the package
  variable \<^verbatim>\<open>ErrStreamStopped\<close> ("stream is stopped"), the
  \<^verbatim>\<open>errors.New\<close> of the capacity check ("zero capacity circular buffer is not
  allowed"), the \<^verbatim>\<open>fmt.Errorf\<close> of the overwrite loop, whose text carries the
  value of \<^verbatim>\<open>iterations\<close>, and the \<^verbatim>\<open>errors.New\<close> of the blocking
  send ("timeout waiting for stream space (424)"). A \<^verbatim>\<open>nil\<close> error is
  \<open>None\<close>.
\<close>

datatype error =
    ErrStreamStopped
  | ErrZeroCapacity
  | ErrStillFull int
  | ErrTimeoutWaitingForSpace

text \<open>How a call ends.\<close>

datatype 'a outcome = Returns 'a | Panics | Blocks

text \<open>
  A Go channel: the values buffered in it, oldest first, its capacity, and whether it
  has been closed.
\<close>

record 'a chan =
  chan_buf :: "'a list"
  chan_cap :: int
  chan_closed :: bool

text \<open>\<^verbatim>\<open>make(chan T, n)\<close> panics on a negative size.\<close>

definition make_chan :: "int \<Rightarrow> 'a chan outcome" where
  "make_chan n =
     (if n < 0 then Panics
      else Returns \<lparr>chan_buf = [], chan_cap = n, chan_closed = False\<rparr>)"

text \<open>
  Whether a send can proceed at once: there is room in the buffer (no receiver is
  waiting, since the call runs alone), or the channel is closed, in which case the send
  proceeds by panicking.
\<close>

definition chan_can_send :: "'a chan \<Rightarrow> bool" where
  "chan_can_send ch \<longleftrightarrow> chan_closed ch \<or> int (length (chan_buf ch)) < chan_cap ch"

definition chan_send :: "'a \<Rightarrow> 'a chan \<Rightarrow> 'a chan outcome" where
  "chan_send x ch =
     (if chan_closed ch then Panics else Returns (ch\<lparr>chan_buf := chan_buf ch @ [x]\<rparr>))"

text \<open>
  Whether a receive can proceed at once: a value is buffered, or the channel is closed. A
  closed and drained channel delivers the zero value of its element type, written
  \<open>None\<close>.
\<close>

definition chan_can_recv :: "'a chan \<Rightarrow> bool" where
  "chan_can_recv ch \<longleftrightarrow> chan_buf ch \<noteq> [] \<or> chan_closed ch"

definition chan_recv :: "'a chan \<Rightarrow> 'a option \<times> 'a chan" where
  "chan_recv ch =
     (case chan_buf ch of
        [] \<Rightarrow> (None, ch)
      | x # xs \<Rightarrow> (Some x, ch\<lparr>chan_buf := xs\<rparr>))"

text \<open>\<^verbatim>\<open>close(ch)\<close> panics on a closed channel.\<close>

definition chan_close :: "'a chan \<Rightarrow> 'a chan outcome" where
  "chan_close ch = (if chan_closed ch then Panics else Returns (ch\<lparr>chan_closed := True\<rparr>))"

text \<open>
  The arm a \<^verbatim>\<open>select\<close> takes among those that can proceed, listed in the
  source's order; \<open>None\<close> when none can.
\<close>

definition select_arm :: "nat \<Rightarrow> 'a list \<Rightarrow> 'a option" where
  "select_arm p ready =
     (if ready = [] then None else Some (ready ! (p mod length ready)))"

text \<open>
  \<^verbatim>\<open>time.Duration(timeoutSeconds) * time.Second\<close>: a \<^verbatim>\<open>Duration\<close> is an
  \<^verbatim>\<open>int64\<close> of nanoseconds and the product wraps around. \<open>timeoutSeconds\<close> is
  a Go \<^verbatim>\<open>int\<close>, 64 bits wide, so its conversion changes nothing. The timer of
  \<^verbatim>\<open>time.After\<close> is due at once when the duration is not positive.
\<close>

definition wrap_int64 :: "int \<Rightarrow> int" where
  "wrap_int64 x = (x + 2 ^ 63) mod 2 ^ 64 - 2 ^ 63"

definition duration_of_seconds :: "int \<Rightarrow> int" where
  "duration_of_seconds timeoutSeconds = wrap_int64 (timeoutSeconds * 1000000000)"

definition timer_due :: "int \<Rightarrow> bool" where
  "timer_due timeoutSeconds \<longleftrightarrow> duration_of_seconds timeoutSeconds \<le> 0"

text \<open>
  The arms of a \<^verbatim>\<open>select\<close> that ends with a \<^verbatim>\<open>time.After\<close> arm: the
  other arms that can proceed, then the deadline arm if its timer is due on entry.
\<close>

datatype 'a timed_arm = Arm 'a | ArmDeadline

definition timed_arms :: "bool \<Rightarrow> 'a list \<Rightarrow> 'a timed_arm list" where
  "timed_arms due arms = map Arm arms @ (if due then [ArmDeadline] else [])"

text \<open>\<^verbatim>\<open>InMemoryStreamImpl\<close>, without its mutex.\<close>

record ('o, 't) InMemoryStreamImpl =
  outputs :: "('o, 't) StreamEntry chan"
  stopped :: bool
  capacity :: int
  stopCh :: "unit chan"

text \<open>The package variable \<^verbatim>\<open>circularBufferMaxIterations\<close> and its setter.\<close>

record globals =
  circularBufferMaxIterations :: int

definition initial_globals :: globals where
  "initial_globals = \<lparr>circularBufferMaxIterations = 100\<rparr>"

definition SetCircularBufferMaxIterations :: "int \<Rightarrow> globals \<Rightarrow> globals" where
  "SetCircularBufferMaxIterations maxIterations g =
     g\<lparr>circularBufferMaxIterations := maxIterations\<rparr>"

text \<open>
  What a call to \<^verbatim>\<open>Send\<close> meets besides the stream: \<open>pick k\<close> resolves the
  \<open>k\<close>-th \<^verbatim>\<open>select\<close> of the call (0 for the first one, \<open>k\<close> for the one in
  the \<open>k\<close>-th round of the overwrite loop), and \<open>intruders\<close> are the entries of
  concurrent senders that do not take the lock: the \<open>k\<close>-th of them is offered to the
  channel right after the \<open>k\<close>-th dequeue of the overwrite loop, before the loop tries
  its own send again. An empty list is a loop that runs undisturbed.
\<close>

record ('o, 't) interleaving =
  pick :: "nat \<Rightarrow> nat"
  intruders :: "('o, 't) StreamEntry list"

subsection \<open>Operations\<close>

definition NewInMemoryStreamImpl :: "int \<Rightarrow> ('o, 't) InMemoryStreamImpl outcome" where
  "NewInMemoryStreamImpl size' =
     (case make_chan size' of
        Returns out \<Rightarrow>
          (case make_chan 0 of
             Returns st \<Rightarrow>
               Returns \<lparr>outputs = out, stopped = False, capacity = size', stopCh = st\<rparr>
           | Panics \<Rightarrow> Panics
           | Blocks \<Rightarrow> Blocks)
      | Panics \<Rightarrow> Panics
      | Blocks \<Rightarrow> Blocks)"

text \<open>The arms of a sending \<^verbatim>\<open>select\<close>, in the source's order.\<close>

datatype send_arm = ArmSent | ArmSendStopped

definition send_arms :: "('o, 't) InMemoryStreamImpl \<Rightarrow> send_arm list" where
  "send_arms s =
     (if chan_can_send (outputs s) then [ArmSent] else []) @
     (if chan_can_recv (stopCh s) then [ArmSendStopped] else [])"

type_synonym ('o, 't) send_result =
  "(ErrorType \<times> error option \<times> ('o, 't) InMemoryStreamImpl) outcome"

text \<open>The arm \<^verbatim>\<open>case outputsChan <- entry\<close> with its \<^verbatim>\<open>return\<close>.\<close>

definition send_entry ::
  "('o, 't) StreamEntry \<Rightarrow> ('o, 't) InMemoryStreamImpl \<Rightarrow> ('o, 't) send_result" where
  "send_entry entry s =
     (case chan_send entry (outputs s) of
        Returns ch \<Rightarrow> Returns (ErrorTypeNone, None, s\<lparr>outputs := ch\<rparr>)
      | Panics \<Rightarrow> Panics
      | Blocks \<Rightarrow> Blocks)"

text \<open>
  A concurrent sender puts its entry into the channel if there is room; with no room it
  stays blocked and the channel is as before.
\<close>

definition intrude ::
  "('o, 't) StreamEntry list \<Rightarrow> ('o, 't) InMemoryStreamImpl \<Rightarrow> ('o, 't) InMemoryStreamImpl" where
  "intrude xs s =
     (case xs of
        [] \<Rightarrow> s
      | x # _ \<Rightarrow>
          (if \<not> chan_closed (outputs s) \<and> int (length (chan_buf (outputs s))) < chan_cap (outputs s)
           then s\<lparr>outputs := (outputs s)\<lparr>chan_buf := chan_buf (outputs s) @ [x]\<rparr>\<rparr>
           else s))"

text \<open>
  The \<^verbatim>\<open>for\<close> loop of \<^verbatim>\<open>sendCircularBufferWithChannel\<close>, entered with
  the value \<open>iterations\<close> has before \<^verbatim>\<open>iterations++\<close>. Go's \<^verbatim>\<open>int\<close> is
  an unbounded integer here: the counter does not reach \<open>2^63\<close> in any run this theory
  speaks about.
\<close>

function circular_loop ::
  "int \<Rightarrow> (nat \<Rightarrow> nat) \<Rightarrow> ('o, 't) StreamEntry list \<Rightarrow> ('o, 't) InMemoryStreamImpl \<Rightarrow>
   ('o, 't) StreamEntry \<Rightarrow> int \<Rightarrow> ('o, 't) send_result" where
  "circular_loop maxIterations pk xs s entry iterations =
     (if iterations + 1 > maxIterations \<comment> \<open>iterations++; if iterations > circularBufferMaxIterations\<close>
      then Returns (ErrorTypeCircularBufferIterationLimit, Some (ErrStillFull (iterations + 1)), s)
      else if \<not> chan_can_recv (outputs s) then Blocks \<comment> \<open>the receive below waits for ever\<close>
      else
        (let s1 = intrude xs (s\<lparr>outputs := snd (chan_recv (outputs s))\<rparr>) \<comment> \<open><-outputsChan, then the intruder\<close> in
         case select_arm (pk (nat (iterations + 1))) (send_arms s1) of
           Some ArmSent \<Rightarrow> send_entry entry s1
         | Some ArmSendStopped \<Rightarrow> Returns (ErrorTypeStreamStopped, Some ErrStreamStopped, s1)
         | None \<Rightarrow> \<comment> \<open>default: continue\<close>
             circular_loop maxIterations pk (tl xs) s1 entry (iterations + 1)))"
  by pat_completeness auto
termination
  by (relation "measure (\<lambda>(maxIterations, pk, xs, s, entry, iterations).
        nat (maxIterations - iterations))") auto

definition sendCircularBufferWithChannel ::
  "globals \<Rightarrow> ('o, 't) interleaving \<Rightarrow> ('o, 't) InMemoryStreamImpl \<Rightarrow>
   ('o, 't) StreamEntry \<Rightarrow> ('o, 't) send_result" where
  "sendCircularBufferWithChannel g env s entry =
     (if capacity s = 0 then Returns (ErrorTypeInvalidRequest, Some ErrZeroCapacity, s)
      else
        (case select_arm (pick env 0) (send_arms s) of
           Some ArmSent \<Rightarrow> send_entry entry s
         | Some ArmSendStopped \<Rightarrow> Returns (ErrorTypeStreamStopped, Some ErrStreamStopped, s)
         | None \<Rightarrow> \<comment> \<open>default: the lock is free; check stopped again, then loop from iterations := 0\<close>
             (if stopped s then Returns (ErrorTypeStreamStopped, Some ErrStreamStopped, s)
              else circular_loop (circularBufferMaxIterations g) (pick env) (intruders env)
                     s entry 0)))"

definition sendBlockingQueueWithChannel ::
  "('o, 't) interleaving \<Rightarrow> ('o, 't) InMemoryStreamImpl \<Rightarrow> ('o, 't) StreamEntry \<Rightarrow> int \<Rightarrow>
   ('o, 't) send_result" where
  "sendBlockingQueueWithChannel env s entry timeoutSeconds =
     (case select_arm (pick env 0) (timed_arms (timer_due timeoutSeconds) (send_arms s)) of
        Some (Arm ArmSent) \<Rightarrow> send_entry entry s
      | Some (Arm ArmSendStopped) \<Rightarrow>
          Returns (ErrorTypeStreamStopped, Some ErrStreamStopped, s)
      | Some ArmDeadline \<Rightarrow> \<comment> \<open>the time.After arm, due on entry\<close>
          Returns (ErrorTypeWaitingTimeout, Some ErrTimeoutWaitingForSpace, s)
      | None \<Rightarrow> \<comment> \<open>the time.After arm, after the wait\<close>
          Returns (ErrorTypeWaitingTimeout, Some ErrTimeoutWaitingForSpace, s))"

definition Send ::
  "globals \<Rightarrow> ('o, 't) interleaving \<Rightarrow> ('o, 't) InMemoryStreamImpl \<Rightarrow>
   'o \<Rightarrow> UUID \<Rightarrow> 't \<Rightarrow> int \<Rightarrow> ('o, 't) send_result" where
  "Send g env s output outputUuid timestamp blockingWriteTimeoutSeconds =
     (if stopped s then Returns (ErrorTypeStreamStopped, Some ErrStreamStopped, s)
      else
        (let entry = \<lparr>OutputUUID = outputUuid, StreamEntry.Output = output,
                      StreamEntry.Timestamp = timestamp\<rparr> in
         if blockingWriteTimeoutSeconds \<le> 0
         then sendCircularBufferWithChannel g env s entry
         else sendBlockingQueueWithChannel env s entry blockingWriteTimeoutSeconds))"

text \<open>The arms of the \<^verbatim>\<open>select\<close> of \<^verbatim>\<open>Receive\<close>, in the source's order.\<close>

datatype recv_arm = ArmReceived | ArmRecvStopped

definition recv_arms :: "('o, 't) InMemoryStreamImpl \<Rightarrow> recv_arm list" where
  "recv_arms s =
     (if chan_can_recv (outputs s) then [ArmReceived] else []) @
     (if chan_can_recv (stopCh s) then [ArmRecvStopped] else [])"

text \<open>
  The zero \<^verbatim>\<open>StreamEntry\<close>, which a closed and drained channel delivers. Every
  Go type has a zero value; the payload and the timestamp take theirs from the class
  \<open>zero\<close>.
\<close>

definition zero_entry :: "('o::zero, 't::zero) StreamEntry" where
  "zero_entry = \<lparr>OutputUUID = 0, StreamEntry.Output = 0, StreamEntry.Timestamp = 0\<rparr>"

type_synonym ('o, 't) receive_result =
  "(('o, 't) InternalReceiveResponse option \<times> ErrorType \<times> error option \<times>
    ('o, 't) InMemoryStreamImpl) outcome"

definition Receive ::
  "nat \<Rightarrow> ('o::zero, 't::zero) InMemoryStreamImpl \<Rightarrow> int \<Rightarrow> ('o, 't) receive_result" where
  "Receive p s timeoutSeconds =
     (if stopped s then Returns (None, ErrorTypeStreamStopped, Some ErrStreamStopped, s)
      else
        (case select_arm p (timed_arms (timer_due timeoutSeconds) (recv_arms s)) of
           Some (Arm ArmReceived) \<Rightarrow>
             (let (got, ch) = chan_recv (outputs s);
                  entry = (case got of None \<Rightarrow> zero_entry | Some e \<Rightarrow> e) in
              Returns
                (Some \<lparr>OutputUuid = OutputUUID entry, Output = StreamEntry.Output entry,
                       Timestamp = StreamEntry.Timestamp entry\<rparr>,
                 ErrorTypeNone, None, s\<lparr>outputs := ch\<rparr>))
         | Some (Arm ArmRecvStopped) \<Rightarrow>
             Returns (None, ErrorTypeStreamStopped, Some ErrStreamStopped, s)
         | Some ArmDeadline \<Rightarrow> \<comment> \<open>the time.After arm, due on entry\<close>
             Returns (None, ErrorTypeWaitingTimeout, None, s)
         | None \<Rightarrow> \<comment> \<open>the time.After arm, after the wait\<close>
             Returns (None, ErrorTypeWaitingTimeout, None, s)))"

definition Stop ::
  "('o, 't) InMemoryStreamImpl \<Rightarrow> (error option \<times> ('o, 't) InMemoryStreamImpl) outcome" where
  "Stop s =
     (if stopped s then Returns (None, s)
      else
        (case chan_close (stopCh s) of \<comment> \<open>i.stopped = true; close(i.stopCh); close(i.outputs)\<close>
           Returns st \<Rightarrow>
             (case chan_close (outputs s) of
                Returns out \<Rightarrow>
                  Returns (None, s\<lparr>stopped := True, stopCh := st, outputs := out\<rparr>)
              | Panics \<Rightarrow> Panics
              | Blocks \<Rightarrow> Blocks)
         | Panics \<Rightarrow> Panics
         | Blocks \<Rightarrow> Blocks))"

subsection \<open>Streams that the code can build\<close>

text \<open>
  What holds of every stream made by \<^verbatim>\<open>NewInMemoryStreamImpl\<close> and used through
  its methods: the channel has the capacity the struct records and holds no more than
  that, and both channels are closed exactly when the stream is stopped.
\<close>

definition stream_inv :: "('o, 't) InMemoryStreamImpl \<Rightarrow> bool" where
  "stream_inv s \<longleftrightarrow>
     chan_cap (outputs s) = capacity s \<and>
     int (length (chan_buf (outputs s))) \<le> capacity s \<and>
     chan_closed (outputs s) = stopped s \<and>
     chan_closed (stopCh s) = stopped s \<and>
     chan_buf (stopCh s) = [] \<and>
     chan_cap (stopCh s) = 0"


subsection \<open>Observations and sequences of calls\<close>

text \<open>The entries the stream holds, oldest first, and a stream with other entries.\<close>

definition queue :: "('o, 't) InMemoryStreamImpl \<Rightarrow> ('o, 't) StreamEntry list" where
  "queue s = chan_buf (outputs s)"

definition with_queue ::
  "('o, 't) StreamEntry list \<Rightarrow> ('o, 't) InMemoryStreamImpl \<Rightarrow> ('o, 't) InMemoryStreamImpl" where
  "with_queue q s = s\<lparr>outputs := (outputs s)\<lparr>chan_buf := q\<rparr>\<rparr>"

text \<open>The entry \<^verbatim>\<open>Send\<close> builds from its arguments.\<close>

definition entry_of :: "'o \<Rightarrow> UUID \<Rightarrow> 't \<Rightarrow> ('o, 't) StreamEntry" where
  "entry_of output outputUuid timestamp =
     \<lparr>OutputUUID = outputUuid, StreamEntry.Output = output,
      StreamEntry.Timestamp = timestamp\<rparr>"

text \<open>The error kind a call returned, if it returned.\<close>

definition send_errorType :: "('o, 't) send_result \<Rightarrow> ErrorType option" where
  "send_errorType r =
     (case r of Returns (errorType, err, s) \<Rightarrow> Some errorType | Panics \<Rightarrow> None | Blocks \<Rightarrow> None)"

definition receive_errorType :: "('o, 't) receive_result \<Rightarrow> ErrorType option" where
  "receive_errorType r =
     (case r of Returns (output, errorType, err, s) \<Rightarrow> Some errorType
      | Panics \<Rightarrow> None | Blocks \<Rightarrow> None)"

text \<open>
  The calls a client can make, one after the other, on one stream and the package
  variable. A sequence ends where a call panics or blocks.
\<close>

datatype ('o, 't) call =
    CallSend "('o, 't) interleaving" 'o UUID 't int
  | CallReceive nat int
  | CallStop
  | CallSetCircularBufferMaxIterations int

fun step ::
  "('o::zero, 't::zero) call \<Rightarrow> globals \<times> ('o, 't) InMemoryStreamImpl \<Rightarrow>
   (globals \<times> ('o, 't) InMemoryStreamImpl) outcome" where
  "step (CallSend env output outputUuid timestamp blockingWriteTimeoutSeconds) (g, s) =
     (case Send g env s output outputUuid timestamp blockingWriteTimeoutSeconds of
        Returns (errorType, err, s') \<Rightarrow> Returns (g, s')
      | Panics \<Rightarrow> Panics
      | Blocks \<Rightarrow> Blocks)"
| "step (CallReceive p timeoutSeconds) (g, s) =
     (case Receive p s timeoutSeconds of
        Returns (output, errorType, err, s') \<Rightarrow> Returns (g, s')
      | Panics \<Rightarrow> Panics
      | Blocks \<Rightarrow> Blocks)"
| "step CallStop (g, s) =
     (case Stop s of
        Returns (err, s') \<Rightarrow> Returns (g, s')
      | Panics \<Rightarrow> Panics
      | Blocks \<Rightarrow> Blocks)"
| "step (CallSetCircularBufferMaxIterations maxIterations) (g, s) =
     Returns (SetCircularBufferMaxIterations maxIterations g, s)"

fun run ::
  "('o::zero, 't::zero) call list \<Rightarrow> globals \<times> ('o, 't) InMemoryStreamImpl \<Rightarrow>
   (globals \<times> ('o, 't) InMemoryStreamImpl) outcome" where
  "run [] w = Returns w"
| "run (c # cs) w =
     (case step c w of
        Returns w' \<Rightarrow> run cs w'
      | Panics \<Rightarrow> Panics
      | Blocks \<Rightarrow> Blocks)"

text \<open>
  Concrete inputs for the examples: the stream \<^verbatim>\<open>NewInMemoryStreamImpl(n)\<close>
  returns for \<open>n \<ge> 0\<close>, and a call that nothing disturbs.
\<close>

definition fresh_stream :: "int \<Rightarrow> ('o, 't) InMemoryStreamImpl" where
  "fresh_stream n =
     \<lparr>outputs = \<lparr>chan_buf = [], chan_cap = n, chan_closed = False\<rparr>,
      stopped = False, capacity = n,
      stopCh = \<lparr>chan_buf = [], chan_cap = 0, chan_closed = False\<rparr>\<rparr>"

definition undisturbed :: "('o, 't) interleaving" where
  "undisturbed = \<lparr>pick = (\<lambda>k. 0), intruders = []\<rparr>"

section \<open>Basic facts\<close>

declare circular_loop.simps [simp del]

lemma select_arm_simps [simp]:
  "select_arm p [] = None" "select_arm p [x] = Some x"
  by (simp_all add: select_arm_def)

lemma select_arm_two:
  "select_arm p [x, y] = Some x \<or> select_arm p [x, y] = Some y"
proof -
  have "[x, y] ! (p mod length [x, y]) \<in> set [x, y]" by (intro nth_mem) simp
  then have "[x, y] ! (p mod length [x, y]) = x \<or> [x, y] ! (p mod length [x, y]) = y"
    by simp
  then show ?thesis unfolding select_arm_def by auto
qed

lemma timed_arms_simps [simp]:
  "timed_arms False arms = map Arm arms"
  "timed_arms True [] = [ArmDeadline]"
  "timed_arms True [x] = [Arm x, ArmDeadline]"
  by (simp_all add: timed_arms_def)

text \<open>
  The timer is not due on entry for a timeout of 1 to 9223372036 seconds, and is due for
  a timeout of 0 seconds or less (down to where the product wraps) and for
  9223372037 seconds, where the product wraps to a negative duration.
\<close>

lemma timer_not_due:
  "0 < timeoutSeconds \<Longrightarrow> timeoutSeconds \<le> 9223372036 \<Longrightarrow> \<not> timer_due timeoutSeconds"
  by (simp add: timer_due_def duration_of_seconds_def wrap_int64_def)

lemma timer_due_nonpositive:
  "timeoutSeconds \<le> 0 \<Longrightarrow> - 9223372036 \<le> timeoutSeconds \<Longrightarrow> timer_due timeoutSeconds"
  by (simp add: timer_due_def duration_of_seconds_def wrap_int64_def)

lemma timer_due_wrapped: "timer_due 9223372037"
  by (simp add: timer_due_def duration_of_seconds_def wrap_int64_def)

lemma with_queue_simps [simp]:
  "queue (with_queue q s) = q"
  "stopped (with_queue q s) = stopped s"
  "capacity (with_queue q s) = capacity s"
  "stopCh (with_queue q s) = stopCh s"
  "with_queue q (with_queue q' s) = with_queue q s"
  "with_queue (queue s) s = s"
  by (simp_all add: with_queue_def queue_def)

lemma stream_inv_with_queue:
  "stream_inv s \<Longrightarrow> int (length q) \<le> capacity s \<Longrightarrow> stream_inv (with_queue q s)"
  by (simp add: stream_inv_def with_queue_def)

lemma stream_inv_with_queue_iff [simp]:
  "stream_inv s \<Longrightarrow> stream_inv (with_queue q s) \<longleftrightarrow> int (length q) \<le> capacity s"
  by (simp add: stream_inv_def with_queue_def)

lemma fresh_stream_simps [simp]:
  "stream_inv (fresh_stream n) \<longleftrightarrow> 0 \<le> n"
  "\<not> stopped (fresh_stream n)"
  "capacity (fresh_stream n) = n"
  "queue (fresh_stream n) = []"
  by (simp_all add: fresh_stream_def stream_inv_def queue_def)

lemma New_fresh:
  "NewInMemoryStreamImpl n = Returns s \<longleftrightarrow> 0 \<le> n \<and> s = fresh_stream n"
  by (auto simp add: NewInMemoryStreamImpl_def make_chan_def fresh_stream_def)

text \<open>
  On a stream the code can build and that is not stopped, at most one arm of each
  \<^verbatim>\<open>select\<close> can proceed, so the choice among arms plays no part.
\<close>

lemma send_arms_inv:
  "stream_inv s \<Longrightarrow> \<not> stopped s \<Longrightarrow>
   send_arms s = (if int (length (queue s)) < capacity s then [ArmSent] else [])"
  by (simp add: send_arms_def stream_inv_def chan_can_send_def chan_can_recv_def queue_def)

lemma recv_arms_inv:
  "stream_inv s \<Longrightarrow> \<not> stopped s \<Longrightarrow>
   recv_arms s = (if queue s \<noteq> [] then [ArmReceived] else [])"
  by (simp add: recv_arms_def stream_inv_def chan_can_recv_def queue_def)

lemma send_entry_inv:
  "stream_inv s \<Longrightarrow> \<not> stopped s \<Longrightarrow>
   send_entry entry s = Returns (ErrorTypeNone, None, with_queue (queue s @ [entry]) s)"
  by (simp add: send_entry_def chan_send_def stream_inv_def with_queue_def queue_def)

subsection \<open>Calls on a stopped stream\<close>

lemma Send_stopped:
  "stopped s \<Longrightarrow>
   Send g env s output outputUuid timestamp blockingWriteTimeoutSeconds =
     Returns (ErrorTypeStreamStopped, Some ErrStreamStopped, s)"
  by (simp add: Send_def)

lemma Receive_stopped:
  "stopped s \<Longrightarrow>
   Receive p s timeoutSeconds = Returns (None, ErrorTypeStreamStopped, Some ErrStreamStopped, s)"
  by (simp add: Receive_def)

lemma Stop_stopped: "stopped s \<Longrightarrow> Stop s = Returns (None, s)"
  by (simp add: Stop_def)

lemma Stop_Returns:
  "Stop s = Returns (err, s1) \<Longrightarrow> err = None \<and> stopped s1 \<and> queue s1 = queue s"
  by (auto simp add: Stop_def chan_close_def queue_def split: if_splits)

lemma Stop_inv:
  "stream_inv s \<Longrightarrow>
   \<exists>s1. Stop s = Returns (None, s1) \<and> stream_inv s1 \<and> capacity s1 = capacity s \<and>
        stopped s1 \<and> (stopped s \<longrightarrow> s1 = s)"
  by (auto simp add: Stop_def chan_close_def stream_inv_def)

lemma step_stopped:
  "stopped s \<Longrightarrow> \<exists>g'. step c (g, s) = Returns (g', s)"
  by (cases c) (simp_all add: Send_stopped Receive_stopped Stop_stopped)

lemma run_stopped:
  "stopped s \<Longrightarrow> \<exists>g'. run cs (g, s) = Returns (g', s)"
proof (induction cs arbitrary: g)
  case Nil
  then show ?case by simp
next
  case (Cons c cs)
  from step_stopped [OF Cons.prems, of c g]
  obtain g1 where 1: "step c (g, s) = Returns (g1, s)" by blast
  from Cons.IH [OF Cons.prems, of g1] show ?case using 1 by simp
qed

lemma run_stops_stopped:
  "stopped s \<Longrightarrow> run (replicate k CallStop) (g, s) = Returns (g, s)"
  by (induction k) (simp_all add: Stop_stopped)

subsection \<open>Calls on a stream that is not stopped\<close>

lemma Send_room:
  assumes "stream_inv s" and "\<not> stopped s" and "int (length (queue s)) < capacity s"
    and "blockingWriteTimeoutSeconds \<le> 0 \<or> \<not> timer_due blockingWriteTimeoutSeconds"
  shows "Send g env s output outputUuid timestamp blockingWriteTimeoutSeconds =
           Returns (ErrorTypeNone, None,
             with_queue (queue s @ [entry_of output outputUuid timestamp]) s)"
  using assms
  by (auto simp add: Send_def sendCircularBufferWithChannel_def sendBlockingQueueWithChannel_def
      send_arms_inv send_entry_inv entry_of_def Let_def)

text \<open>With room and a timer that is due on entry, the send goes through or times out.\<close>

lemma Send_room_due:
  assumes "stream_inv s" and "\<not> stopped s" and "int (length (queue s)) < capacity s"
    and "0 < blockingWriteTimeoutSeconds" and "timer_due blockingWriteTimeoutSeconds"
  shows "Send g env s output outputUuid timestamp blockingWriteTimeoutSeconds =
           Returns (ErrorTypeNone, None,
             with_queue (queue s @ [entry_of output outputUuid timestamp]) s)
         \<or> Send g env s output outputUuid timestamp blockingWriteTimeoutSeconds =
           Returns (ErrorTypeWaitingTimeout, Some ErrTimeoutWaitingForSpace, s)"
  using assms select_arm_two [of "pick env 0" "Arm ArmSent" ArmDeadline]
  by (auto simp add: Send_def sendBlockingQueueWithChannel_def
      send_arms_inv send_entry_inv entry_of_def Let_def)

lemma Send_blocking_full:
  assumes "stream_inv s" and "\<not> stopped s" and "int (length (queue s)) = capacity s"
    and "0 < blockingWriteTimeoutSeconds"
  shows "Send g env s output outputUuid timestamp blockingWriteTimeoutSeconds =
           Returns (ErrorTypeWaitingTimeout, Some ErrTimeoutWaitingForSpace, s)"
  using assms
  by (cases "timer_due blockingWriteTimeoutSeconds")
     (simp_all add: Send_def sendBlockingQueueWithChannel_def send_arms_inv)

lemma Receive_nonempty:
  assumes "stream_inv s" and "\<not> stopped s" and "queue s = e # q"
    and "\<not> timer_due timeoutSeconds"
  shows "Receive p s timeoutSeconds =
           Returns (Some \<lparr>OutputUuid = OutputUUID e, Output = StreamEntry.Output e,
                          Timestamp = StreamEntry.Timestamp e\<rparr>,
                    ErrorTypeNone, None, with_queue q s)"
  using assms
  by (simp add: Receive_def recv_arms_inv chan_recv_def with_queue_def queue_def)

text \<open>With an entry queued and a timer that is due on entry, the receive delivers or times out.\<close>

lemma Receive_nonempty_due:
  assumes "stream_inv s" and "\<not> stopped s" and "queue s = e # q"
    and "timer_due timeoutSeconds"
  shows "Receive p s timeoutSeconds =
           Returns (Some \<lparr>OutputUuid = OutputUUID e, Output = StreamEntry.Output e,
                          Timestamp = StreamEntry.Timestamp e\<rparr>,
                    ErrorTypeNone, None, with_queue q s)
         \<or> Receive p s timeoutSeconds = Returns (None, ErrorTypeWaitingTimeout, None, s)"
  using assms select_arm_two [of p "Arm ArmReceived" ArmDeadline]
  by (auto simp add: Receive_def recv_arms_inv chan_recv_def with_queue_def queue_def)

lemma Receive_entry:
  assumes "stream_inv s" and "\<not> stopped s"
    and "queue s = entry_of output outputUuid timestamp # q"
    and "\<not> timer_due timeoutSeconds"
  shows "Receive p s timeoutSeconds =
           Returns (Some \<lparr>OutputUuid = outputUuid, Output = output, Timestamp = timestamp\<rparr>,
                    ErrorTypeNone, None, with_queue q s)"
  using Receive_nonempty [OF assms] by (simp add: entry_of_def)

lemma Receive_empty:
  assumes "stream_inv s" and "\<not> stopped s" and "queue s = []"
  shows "Receive p s timeoutSeconds = Returns (None, ErrorTypeWaitingTimeout, None, s)"
  using assms
  by (cases "timer_due timeoutSeconds") (simp_all add: Receive_def recv_arms_inv)

subsection \<open>The overwrite loop on a full stream\<close>

text \<open>
  One round on a full stream: the oldest entry leaves, and the first intruder, if there
  is one, takes the free slot.
\<close>

lemma dequeue_intrude_full:
  assumes "stream_inv s" and "\<not> stopped s" and "1 \<le> capacity s"
    and "int (length (queue s)) = capacity s"
  shows "intrude xs (s\<lparr>outputs := snd (chan_recv (outputs s))\<rparr>) =
           with_queue (tl (queue s) @ take 1 xs) s"
  using assms
  by (cases "chan_buf (outputs s)"; cases xs)
     (auto simp add: intrude_def chan_recv_def stream_inv_def with_queue_def queue_def)

text \<open>
  The loop in closed form, by induction on the intruders: it gives up exactly when an
  intruder refills the slot in each round the cap still allows, and by then it has removed
  one entry per round; otherwise it enqueues its entry in the first round without an
  intruder.
\<close>

lemma circular_loop_full:
  assumes "stream_inv s" and "\<not> stopped s" and "1 \<le> capacity s"
    and "int (length (queue s)) = capacity s"
  shows "circular_loop m pk xs s e i =
     (if m - i \<le> int (length xs)
      then Returns (ErrorTypeCircularBufferIterationLimit,
                    Some (ErrStillFull (max (i + 1) (m + 1))),
                    with_queue (drop (nat (m - i)) (queue s @ take (nat (m - i)) xs)) s)
      else Returns (ErrorTypeNone, None,
                    with_queue (drop (length xs + 1) (queue s @ xs @ [e])) s))"
  using assms
proof (induction xs arbitrary: s i)
  case Nil
  then have ne: "queue s \<noteq> []" by auto
  show ?case
  proof (cases "i + 1 > m")
    case True
    then show ?thesis by (simp add: circular_loop.simps [of m pk "[]" s e i])
  next
    case False
    have "chan_can_recv (outputs s)" using ne by (simp add: chan_can_recv_def queue_def)
    moreover have "stream_inv (with_queue (tl (queue s)) s)"
      using Nil ne by (intro stream_inv_with_queue) auto
    moreover have "tl (queue s) @ [e] = drop (Suc 0) (queue s @ [e])"
      using ne by (cases "queue s") auto
    ultimately show ?thesis using False Nil ne
      by (simp add: circular_loop.simps [of m pk "[]" s e i] dequeue_intrude_full
          send_arms_inv send_entry_inv)
  qed
next
  case (Cons x xs)
  then have ne: "queue s \<noteq> []" by auto
  show ?case
  proof (cases "i + 1 > m")
    case True
    then show ?thesis by (simp add: circular_loop.simps [of m pk "x # xs" s e i])
  next
    case False
    let ?s1 = "with_queue (tl (queue s) @ [x]) s"
    have cr: "chan_can_recv (outputs s)" using ne by (simp add: chan_can_recv_def queue_def)
    have len: "int (length (tl (queue s) @ [x])) = capacity s" using Cons.prems ne by auto
    have inv1: "stream_inv ?s1"
      using Cons.prems len by (intro stream_inv_with_queue) auto
    have step: "circular_loop m pk (x # xs) s e i = circular_loop m pk xs ?s1 e (i + 1)"
      using False Cons.prems cr inv1 len
      by (simp add: circular_loop.simps [of m pk "x # xs" s e i] dequeue_intrude_full
          send_arms_inv)
    have ih: "circular_loop m pk xs ?s1 e (i + 1) =
       (if m - (i + 1) \<le> int (length xs)
        then Returns (ErrorTypeCircularBufferIterationLimit,
                    Some (ErrStillFull (max (i + 1 + 1) (m + 1))),
                    with_queue (drop (nat (m - (i + 1)))
                      (queue ?s1 @ take (nat (m - (i + 1))) xs)) ?s1)
        else Returns (ErrorTypeNone, None,
                    with_queue (drop (length xs + 1) (queue ?s1 @ xs @ [e])) ?s1))"
      using Cons.prems inv1 len by (intro Cons.IH) auto
    have n: "nat (m - i) = Suc (nat (m - (i + 1)))" using False by auto
    obtain y ys where q: "queue s = y # ys" using ne by (cases "queue s") auto
    show ?thesis unfolding step ih using False
      by (simp add: n q max_def)
  qed
qed

lemma Send_circular_full:
  assumes "stream_inv s" and "\<not> stopped s" and "1 \<le> capacity s"
    and "int (length (queue s)) = capacity s" and "blockingWriteTimeoutSeconds \<le> 0"
  shows "Send g env s output outputUuid timestamp blockingWriteTimeoutSeconds =
     circular_loop (circularBufferMaxIterations g) (pick env) (intruders env) s
       (entry_of output outputUuid timestamp) 0"
  using assms
  by (simp add: Send_def sendCircularBufferWithChannel_def send_arms_inv entry_of_def)

lemma Send_overwrite:
  assumes "stream_inv s" and "\<not> stopped s" and "1 \<le> capacity s"
    and "int (length (queue s)) = capacity s" and "blockingWriteTimeoutSeconds \<le> 0"
    and "1 \<le> circularBufferMaxIterations g" and "intruders env = []"
  shows "Send g env s output outputUuid timestamp blockingWriteTimeoutSeconds =
     Returns (ErrorTypeNone, None,
       with_queue (tl (queue s) @ [entry_of output outputUuid timestamp]) s)"
proof -
  have "queue s \<noteq> []" using assms by auto
  then have "drop (Suc 0) (queue s @ [entry_of output outputUuid timestamp]) =
      tl (queue s) @ [entry_of output outputUuid timestamp]"
    by (cases "queue s") auto
  then show ?thesis using assms
    by (simp add: Send_circular_full circular_loop_full)
qed

subsection \<open>Every call returns and keeps the stream well formed\<close>

lemma length_after_limit:
  "m \<le> int (length xs) \<Longrightarrow> length (drop (nat m) (q @ take (nat m) xs)) = length q"
proof -
  assume "m \<le> int (length xs)"
  then have "nat m \<le> length xs" by linarith
  then show ?thesis by (simp del: drop_append)
qed

lemma length_after_overwrite:
  "q \<noteq> [] \<Longrightarrow> length (drop (length xs + 1) (q @ xs @ [e])) = length q"
  by (cases q) simp_all

lemma Send_inv:
  assumes "stream_inv s"
  shows "\<exists>errorType err s'.
           Send g env s output outputUuid timestamp blockingWriteTimeoutSeconds =
             Returns (errorType, err, s') \<and> stream_inv s' \<and> capacity s' = capacity s"
proof -
  let ?e = "entry_of output outputUuid timestamp"
  have le: "int (length (queue s)) \<le> capacity s"
    using assms by (simp add: stream_inv_def queue_def)
  consider (stopped) "stopped s"
    | (room) "\<not> stopped s" "int (length (queue s)) < capacity s"
    | (blocking) "\<not> stopped s" "int (length (queue s)) = capacity s"
        "0 < blockingWriteTimeoutSeconds"
    | (zero) "\<not> stopped s" "capacity s = 0" "blockingWriteTimeoutSeconds \<le> 0"
    | (loop) "\<not> stopped s" "int (length (queue s)) = capacity s" "1 \<le> capacity s"
        "blockingWriteTimeoutSeconds \<le> 0"
    using le by linarith
  then show ?thesis
  proof cases
    case stopped
    then show ?thesis using assms by (simp add: Send_stopped)
  next
    case room
    show ?thesis
    proof (cases "0 < blockingWriteTimeoutSeconds \<and> timer_due blockingWriteTimeoutSeconds")
      case True
      with Send_room_due [of s blockingWriteTimeoutSeconds g env "output" outputUuid timestamp]
      show ?thesis using assms room by auto
    next
      case False
      then have "blockingWriteTimeoutSeconds \<le> 0 \<or> \<not> timer_due blockingWriteTimeoutSeconds"
        by auto
      then show ?thesis using assms room by (simp add: Send_room)
    qed
  next
    case blocking
    then show ?thesis using assms by (simp add: Send_blocking_full)
  next
    case zero
    then show ?thesis using assms
      by (simp add: Send_def sendCircularBufferWithChannel_def)
  next
    case loop
    then have ne: "queue s \<noteq> []" by auto
    show ?thesis
    proof (cases "circularBufferMaxIterations g \<le> int (length (intruders env))")
      case True
      then have "stream_inv (with_queue (drop (nat (circularBufferMaxIterations g))
          (queue s @ take (nat (circularBufferMaxIterations g)) (intruders env))) s)"
        using assms loop
        by (intro stream_inv_with_queue) (simp_all add: length_after_limit del: drop_append)
      then show ?thesis using assms loop True
        by (simp add: Send_circular_full circular_loop_full del: drop_append)
    next
      case False
      have "stream_inv (with_queue (drop (length (intruders env) + 1)
          (queue s @ intruders env @ [?e])) s)"
        using assms loop ne
        by (intro stream_inv_with_queue) (simp_all add: length_after_overwrite del: drop_append)
      then show ?thesis using assms loop False
        by (simp add: Send_circular_full circular_loop_full del: drop_append)
    qed
  qed
qed

lemma Receive_inv:
  assumes "stream_inv s"
  shows "\<exists>output errorType err s'.
           Receive p s timeoutSeconds = Returns (output, errorType, err, s') \<and>
           stream_inv s' \<and> capacity s' = capacity s"
proof (cases "stopped s")
  case True
  then show ?thesis using assms by (simp add: Receive_stopped)
next
  case False
  show ?thesis
  proof (cases "queue s")
    case Nil
    then show ?thesis using assms False by (simp add: Receive_empty)
  next
    case (Cons e q)
    moreover have "int (length (queue s)) \<le> capacity s"
      using assms by (simp add: stream_inv_def queue_def)
    ultimately show ?thesis
      using assms False Receive_nonempty [of s e q timeoutSeconds p]
        Receive_nonempty_due [of s e q timeoutSeconds p]
      by (cases "timer_due timeoutSeconds") auto
  qed
qed

lemma step_inv:
  assumes "stream_inv s"
  shows "\<exists>g' s'. step c (g, s) = Returns (g', s') \<and> stream_inv s' \<and> capacity s' = capacity s"
proof (cases c)
  case (CallSend env out outputUuid timestamp b)
  from Send_inv [OF assms, of g env out outputUuid timestamp b]
  show ?thesis using CallSend by auto
next
  case (CallReceive p t)
  from Receive_inv [OF assms, of p t]
  show ?thesis using CallReceive by auto
next
  case CallStop
  from Stop_inv [OF assms]
  show ?thesis using CallStop by auto
next
  case (CallSetCircularBufferMaxIterations n)
  then show ?thesis using assms by simp
qed

lemma run_inv:
  "stream_inv s \<Longrightarrow>
   \<exists>g' s'. run cs (g, s) = Returns (g', s') \<and> stream_inv s' \<and> capacity s' = capacity s"
proof (induction cs arbitrary: g s)
  case Nil
  then show ?case by simp
next
  case (Cons c cs)
  from step_inv [OF Cons.prems, of c g]
  obtain g1 s1 where 1: "step c (g, s) = Returns (g1, s1)" and 2: "stream_inv s1"
    and 3: "capacity s1 = capacity s" by blast
  from Cons.IH [OF 2, of g1] show ?case using 1 3 by simp
qed

text \<open>
  So every stream reached from \<^verbatim>\<open>NewInMemoryStreamImpl\<close> through calls
  satisfies \<open>stream_inv\<close>, the hypothesis of the properties below.
\<close>

lemma reachable_stream_inv:
  fixes s0 :: "('o::zero, 't::zero) InMemoryStreamImpl"
  assumes "NewInMemoryStreamImpl n = Returns s0" and "run cs (g, s0) = Returns (g', s)"
  shows "stream_inv s"
proof -
  from assms(1) have "stream_inv s0" by (simp add: New_fresh)
  from run_inv [OF this, of cs g] assms(2) show ?thesis by auto
qed

subsection \<open>Circular sends on a stream of capacity 2\<close>

lemma circular_send_capacity_two:
  assumes "stream_inv s" and "\<not> stopped s" and "capacity s = 2"
    and "1 \<le> circularBufferMaxIterations g" and "intruders env = []"
    and "blockingWriteTimeoutSeconds \<le> 0"
  shows "Send g env s output outputUuid timestamp blockingWriteTimeoutSeconds =
           Returns (ErrorTypeNone, None,
             with_queue (if length (queue s) < 2
                         then queue s @ [entry_of output outputUuid timestamp]
                         else tl (queue s) @ [entry_of output outputUuid timestamp]) s)"
proof (cases "length (queue s) < 2")
  case True
  then show ?thesis using assms by (simp add: Send_room)
next
  case False
  moreover have "int (length (queue s)) \<le> 2"
    using assms by (simp add: stream_inv_def queue_def)
  ultimately have "int (length (queue s)) = capacity s" using assms by simp
  then show ?thesis using assms False by (simp add: Send_overwrite)
qed

section \<open>Properties\<close>

text \<open>
  Throughout, \<open>stream_inv s\<close> says that \<open>s\<close> is a stream the code can build, and the
  streams of the examples are \<open>fresh_stream n\<close>, filled with \<open>with_queue\<close>.
\<close>

subsection \<open>Round trip\<close>

text \<open>
  C1, as the code has it. On a stream that is not stopped, has capacity at least 1 and is
  empty, one \<^verbatim>\<open>Send\<close> of an entry returns \<open>ErrorTypeNone\<close> and leaves
  exactly that entry in the stream, in circular mode and, when its timer is not due on
  entry, in blocking mode; one \<^verbatim>\<open>Receive\<close> after it whose timer is not due on
  entry returns \<open>ErrorTypeNone\<close> and a response with the same UUID, the same payload
  and the same timestamp, and leaves the stream empty again. A timer is not due on entry
  when the timeout, taken to nanoseconds in 64 bits, is positive: so for every timeout
  from 1 to 9223372036 seconds (\<open>timer_not_due\<close>).
\<close>

theorem send_then_receive_roundtrip:
  assumes "stream_inv s" and "\<not> stopped s" and "1 \<le> capacity s" and "queue s = []"
    and "blockingWriteTimeoutSeconds \<le> 0 \<or> \<not> timer_due blockingWriteTimeoutSeconds"
    and "\<not> timer_due timeoutSeconds"
  shows "Send g env s output outputUuid timestamp blockingWriteTimeoutSeconds =
           Returns (ErrorTypeNone, None, with_queue [entry_of output outputUuid timestamp] s)
         \<and> Receive p (with_queue [entry_of output outputUuid timestamp] s) timeoutSeconds =
           Returns (Some \<lparr>OutputUuid = outputUuid, Output = output, Timestamp = timestamp\<rparr>,
                    ErrorTypeNone, None, s)"
proof -
  let ?e = "entry_of output outputUuid timestamp"
  have inv1: "stream_inv (with_queue [?e] s)"
    using assms by (intro stream_inv_with_queue) auto
  have "with_queue [] s = s" using assms(4) with_queue_simps(6) [of s] by simp
  then have "Receive p (with_queue [?e] s) timeoutSeconds =
      Returns (Some \<lparr>OutputUuid = outputUuid, Output = output, Timestamp = timestamp\<rparr>,
               ErrorTypeNone, None, s)"
    using assms(2,6) inv1
      Receive_entry [of "with_queue [?e] s" "output" outputUuid timestamp "[]" timeoutSeconds p]
    by simp
  moreover have "Send g env s output outputUuid timestamp blockingWriteTimeoutSeconds =
      Returns (ErrorTypeNone, None, with_queue [?e] s)"
    using assms by (simp add: Send_room)
  ultimately show ?thesis by simp
qed

theorem send_then_receive_roundtrip_witness:
  "Send initial_globals undisturbed (fresh_stream 1) (7::nat) 42 (1000::nat) 0 =
     Returns (ErrorTypeNone, None, with_queue [entry_of 7 42 1000] (fresh_stream 1))
   \<and> Send initial_globals undisturbed (fresh_stream 1) (7::nat) 42 (1000::nat) 5 =
     Returns (ErrorTypeNone, None, with_queue [entry_of 7 42 1000] (fresh_stream 1))
   \<and> Receive 0 (with_queue [entry_of 7 42 1000] (fresh_stream 1)) 30 =
     Returns (Some \<lparr>OutputUuid = 42, Output = 7::nat, Timestamp = 1000::nat\<rparr>,
              ErrorTypeNone, None, fresh_stream 1)"
proof -
  let ?s = "fresh_stream 1 :: (nat, nat) InMemoryStreamImpl"
  have i: "stream_inv ?s" "\<not> stopped ?s" "1 \<le> capacity ?s" "queue ?s = []" by simp_all
  have b0: "(0::int) \<le> 0 \<or> \<not> timer_due 0" by simp
  have b5: "(5::int) \<le> 0 \<or> \<not> timer_due 5" by (simp add: timer_not_due)
  have t: "\<not> timer_due 30" by (simp add: timer_not_due)
  from send_then_receive_roundtrip [OF i b0 t, of initial_globals undisturbed 7 42 1000 0]
    send_then_receive_roundtrip [OF i b5 t, of initial_globals undisturbed 7 42 1000 0]
  show ?thesis by simp
qed

text \<open>
  Without the condition on the timers the round trip can fail. A receive with a timeout
  of 0 seconds finds both its receive arm and its deadline arm able to proceed; when the
  \<^verbatim>\<open>select\<close> takes the second, it returns no response and
  \<open>ErrorTypeWaitingTimeout\<close> and the entry stays queued. A blocking send with a
  timeout of 9223372037 seconds, whose duration wraps to a negative number, can time out
  on an empty stream in the same way.
\<close>

theorem roundtrip_timer_due_counterexample:
  "Send initial_globals undisturbed (fresh_stream 1) (7::nat) 42 (1000::nat) 0 =
     Returns (ErrorTypeNone, None, with_queue [entry_of 7 42 1000] (fresh_stream 1))
   \<and> Receive 1 (with_queue [entry_of (7::nat) 42 (1000::nat)] (fresh_stream 1)) 0 =
     Returns (None, ErrorTypeWaitingTimeout, None,
              with_queue [entry_of 7 42 1000] (fresh_stream 1))
   \<and> Send initial_globals \<lparr>pick = (\<lambda>k. 1), intruders = []\<rparr>
       (fresh_stream 1) (7::nat) 42 (1000::nat) 9223372037 =
     Returns (ErrorTypeWaitingTimeout, Some ErrTimeoutWaitingForSpace, fresh_stream 1)"
proof -
  let ?s = "fresh_stream 1 :: (nat, nat) InMemoryStreamImpl"
  let ?s1 = "with_queue [entry_of (7::nat) 42 (1000::nat)] (fresh_stream 1)"
  have "Send initial_globals undisturbed ?s 7 42 1000 0 = Returns (ErrorTypeNone, None, ?s1)"
    by (simp add: Send_room)
  moreover have "select_arm 1 [Arm ArmReceived, ArmDeadline] = Some ArmDeadline"
    by (simp add: select_arm_def)
  then have "Receive 1 ?s1 0 = Returns (None, ErrorTypeWaitingTimeout, None, ?s1)"
    by (simp add: Receive_def recv_arms_inv timer_due_nonpositive)
  moreover have "select_arm 1 [Arm ArmSent, ArmDeadline] = Some ArmDeadline"
    by (simp add: select_arm_def)
  then have "Send initial_globals \<lparr>pick = (\<lambda>k. 1), intruders = []\<rparr> ?s 7 42 1000 9223372037 =
      Returns (ErrorTypeWaitingTimeout, Some ErrTimeoutWaitingForSpace, ?s)"
    by (simp add: Send_def sendBlockingQueueWithChannel_def send_arms_inv timer_due_wrapped)
  ultimately show ?thesis by simp
qed

subsection \<open>Circular overflow\<close>

text \<open>
  C2, as the code has it. On a stream of capacity 2 that is not stopped, with nobody else
  acting on it and an iteration cap of at least 1 (the default is 100), four circular
  sends in a row (\<open>blockingWriteTimeoutSeconds \<le> 0\<close>) of the entries A, B, C and D
  all return \<open>ErrorTypeNone\<close>, whatever the stream held before. A send that finds the
  stream full drops the oldest entry and enqueues the new one: the stream holds A, B after
  the second send, B, C after the third and C, D after the fourth. The next two receives
  return C and then D, provided their timers are not due on entry (a timeout from 1 to
  9223372036 seconds).
\<close>

theorem circular_overflow_capacity_two:
  fixes s :: "('o::zero, 't::zero) InMemoryStreamImpl"
  assumes "stream_inv s" and "\<not> stopped s" and "capacity s = 2"
    and "1 \<le> circularBufferMaxIterations g"
    and "intruders envA = []" and "intruders envB = []"
    and "intruders envC = []" and "intruders envD = []"
    and "bA \<le> 0" and "bB \<le> 0" and "bC \<le> 0" and "bD \<le> 0"
    and "\<not> timer_due t1" and "\<not> timer_due t2"
  shows "\<exists>s1 s2 s3 s4.
           Send g envA s oA uA tA bA = Returns (ErrorTypeNone, None, s1)
         \<and> Send g envB s1 oB uB tB bB = Returns (ErrorTypeNone, None, s2)
         \<and> Send g envC s2 oC uC tC bC = Returns (ErrorTypeNone, None, s3)
         \<and> Send g envD s3 oD uD tD bD = Returns (ErrorTypeNone, None, s4)
         \<and> (length (queue s) = 2 \<longrightarrow> queue s1 = tl (queue s) @ [entry_of oA uA tA])
         \<and> queue s2 = [entry_of oA uA tA, entry_of oB uB tB]
         \<and> queue s3 = [entry_of oB uB tB, entry_of oC uC tC]
         \<and> queue s4 = [entry_of oC uC tC, entry_of oD uD tD]
         \<and> Receive p1 s4 t1 =
             Returns (Some \<lparr>OutputUuid = uC, Output = oC, Timestamp = tC\<rparr>,
                      ErrorTypeNone, None, with_queue [entry_of oD uD tD] s)
         \<and> Receive p2 (with_queue [entry_of oD uD tD] s) t2 =
             Returns (Some \<lparr>OutputUuid = uD, Output = oD, Timestamp = tD\<rparr>,
                      ErrorTypeNone, None, with_queue [] s)"
proof -
  have le: "length (queue s) \<le> 2"
    using assms by (simp add: stream_inv_def queue_def)
  let ?A = "entry_of oA uA tA" and ?B = "entry_of oB uB tB"
  let ?C = "entry_of oC uC tC" and ?D = "entry_of oD uD tD"
  define q1 where "q1 = (if length (queue s) < 2 then queue s @ [?A] else tl (queue s) @ [?A])"
  have l1: "length q1 \<le> 2" "q1 \<noteq> []" using le by (auto simp add: q1_def)
  have 1: "Send g envA s oA uA tA bA = Returns (ErrorTypeNone, None, with_queue q1 s)"
    using assms by (simp add: circular_send_capacity_two q1_def)
  define q2 where "q2 = (if length q1 < 2 then q1 @ [?B] else tl q1 @ [?B])"
  have 2: "Send g envB (with_queue q1 s) oB uB tB bB =
      Returns (ErrorTypeNone, None, with_queue q2 s)"
    using assms l1 by (simp add: circular_send_capacity_two q2_def)
  have l2: "length q2 = 2"
  proof (cases q1)
    case Nil
    then show ?thesis using l1 by simp
  next
    case (Cons a r)
    then show ?thesis using l1 by (cases r) (auto simp add: q2_def)
  qed
  have 3: "Send g envC (with_queue q2 s) oC uC tC bC =
      Returns (ErrorTypeNone, None, with_queue (tl q2 @ [?C]) s)"
    using assms l2 by (simp add: circular_send_capacity_two)
  have 4: "Send g envD (with_queue (tl q2 @ [?C]) s) oD uD tD bD =
      Returns (ErrorTypeNone, None, with_queue (tl (tl q2 @ [?C]) @ [?D]) s)"
    using assms l2 by (simp add: circular_send_capacity_two)
  have e2: "q2 = [?A, ?B]"
    using l1 by (cases q1; cases "tl q1") (auto simp add: q2_def q1_def split: if_splits)
  have e1: "length (queue s) = 2 \<longrightarrow> q1 = tl (queue s) @ [?A]" by (simp add: q1_def)
  have 5: "Receive p1 (with_queue [?C, ?D] s) t1 =
      Returns (Some \<lparr>OutputUuid = uC, Output = oC, Timestamp = tC\<rparr>,
               ErrorTypeNone, None, with_queue [?D] s)"
    using assms Receive_entry [of "with_queue [?C, ?D] s" oC uC tC "[?D]" t1 p1]
    by simp
  have 6: "Receive p2 (with_queue [?D] s) t2 =
      Returns (Some \<lparr>OutputUuid = uD, Output = oD, Timestamp = tD\<rparr>,
               ErrorTypeNone, None, with_queue [] s)"
    using assms Receive_entry [of "with_queue [?D] s" oD uD tD "[]" t2 p2]
    by simp
  show ?thesis
    using 1 2 3 4 5 6 e1 e2 by simp
qed

theorem circular_overflow_capacity_two_witness:
  "\<exists>s1 s2 s3 s4.
     Send initial_globals undisturbed (fresh_stream 2) (1::nat) 11 (101::nat) 0 =
       Returns (ErrorTypeNone, None, s1)
   \<and> Send initial_globals undisturbed s1 2 12 102 0 = Returns (ErrorTypeNone, None, s2)
   \<and> Send initial_globals undisturbed s2 3 13 103 0 = Returns (ErrorTypeNone, None, s3)
   \<and> Send initial_globals undisturbed s3 4 14 104 0 = Returns (ErrorTypeNone, None, s4)
   \<and> queue s2 = [entry_of 1 11 101, entry_of 2 12 102]
   \<and> queue s3 = [entry_of 2 12 102, entry_of 3 13 103]
   \<and> queue s4 = [entry_of 3 13 103, entry_of 4 14 104]
   \<and> Receive 0 s4 30 =
       Returns (Some \<lparr>OutputUuid = 13, Output = 3, Timestamp = 103\<rparr>, ErrorTypeNone, None,
                with_queue [entry_of 4 14 104] (fresh_stream 2))
   \<and> Receive 0 (with_queue [entry_of (4::nat) 14 (104::nat)] (fresh_stream 2)) 30 =
       Returns (Some \<lparr>OutputUuid = 14, Output = 4, Timestamp = 104\<rparr>, ErrorTypeNone, None,
                with_queue [] (fresh_stream 2))"
proof -
  have g: "1 \<le> circularBufferMaxIterations initial_globals"
    by (simp add: initial_globals_def)
  have u: "intruders (undisturbed :: (nat, nat) interleaving) = []"
    by (simp add: undisturbed_def)
  have i: "stream_inv (fresh_stream 2 :: (nat, nat) InMemoryStreamImpl)"
    "\<not> stopped (fresh_stream 2 :: (nat, nat) InMemoryStreamImpl)"
    "capacity (fresh_stream 2 :: (nat, nat) InMemoryStreamImpl) = 2"
    by simp_all
  have z: "(0::int) \<le> 0" by simp
  have t: "\<not> timer_due 30" by (simp add: timer_not_due)
  from circular_overflow_capacity_two [OF i g u u u u z z z z t t,
      of 1 11 101 2 12 102 3 13 103 4 14 104 0 0]
  show ?thesis by (elim exE conjE, intro exI conjI) assumption+
qed

text \<open>
  Without the condition on the timers the receive can miss C. After the four sends on a
  new stream of capacity 2, a receive with a timeout of 0 seconds finds both its receive
  arm and its deadline arm able to proceed; when the \<^verbatim>\<open>select\<close> takes the
  second, it returns no response and \<open>ErrorTypeWaitingTimeout\<close>, and C and D stay
  queued.
\<close>

theorem circular_overflow_timer_due_counterexample:
  "Send initial_globals undisturbed (fresh_stream 2) (1::nat) 11 (101::nat) 0 =
     Returns (ErrorTypeNone, None, with_queue [entry_of 1 11 101] (fresh_stream 2))
   \<and> Send initial_globals undisturbed
       (with_queue [entry_of (1::nat) 11 (101::nat)] (fresh_stream 2)) 2 12 102 0 =
     Returns (ErrorTypeNone, None,
              with_queue [entry_of 1 11 101, entry_of 2 12 102] (fresh_stream 2))
   \<and> Send initial_globals undisturbed
       (with_queue [entry_of (1::nat) 11 (101::nat), entry_of 2 12 102] (fresh_stream 2))
       3 13 103 0 =
     Returns (ErrorTypeNone, None,
              with_queue [entry_of 2 12 102, entry_of 3 13 103] (fresh_stream 2))
   \<and> Send initial_globals undisturbed
       (with_queue [entry_of (2::nat) 12 (102::nat), entry_of 3 13 103] (fresh_stream 2))
       4 14 104 0 =
     Returns (ErrorTypeNone, None,
              with_queue [entry_of 3 13 103, entry_of 4 14 104] (fresh_stream 2))
   \<and> Receive 1
       (with_queue [entry_of (3::nat) 13 (103::nat), entry_of 4 14 104] (fresh_stream 2)) 0 =
     Returns (None, ErrorTypeWaitingTimeout, None,
              with_queue [entry_of 3 13 103, entry_of 4 14 104] (fresh_stream 2))"
proof -
  have g: "1 \<le> circularBufferMaxIterations initial_globals"
    by (simp add: initial_globals_def)
  have u: "intruders (undisturbed :: (nat, nat) interleaving) = []"
    by (simp add: undisturbed_def)
  have "select_arm 1 [Arm ArmReceived, ArmDeadline] = Some ArmDeadline"
    by (simp add: select_arm_def)
  then have "Receive 1
       (with_queue [entry_of (3::nat) 13 (103::nat), entry_of 4 14 104] (fresh_stream 2)) 0 =
     Returns (None, ErrorTypeWaitingTimeout, None,
              with_queue [entry_of 3 13 103, entry_of 4 14 104] (fresh_stream 2))"
    by (simp add: Receive_def recv_arms_inv timer_due_nonpositive)
  then show ?thesis using g u by (simp add: Send_room Send_overwrite)
qed

subsection \<open>Stop safety\<close>

text \<open>
  C3. Once \<^verbatim>\<open>Stop\<close> has returned, every \<^verbatim>\<open>Send\<close> on the stream returns
  \<open>ErrorTypeStreamStopped\<close> and every \<^verbatim>\<open>Receive\<close> returns no response and
  \<open>ErrorTypeStreamStopped\<close>; both leave the stream as it is, so nothing is enqueued
  and nothing is dequeued, although the entries queued when \<^verbatim>\<open>Stop\<close> was called
  are still there. Since the stream does not change, this holds after any further
  sequence of calls as well.
\<close>

theorem no_ok_after_stop:
  assumes "Stop s = Returns (err, s1)"
  shows "Send g env s1 output outputUuid timestamp blockingWriteTimeoutSeconds =
           Returns (ErrorTypeStreamStopped, Some ErrStreamStopped, s1)
         \<and> Receive p s1 timeoutSeconds =
           Returns (None, ErrorTypeStreamStopped, Some ErrStreamStopped, s1)
         \<and> queue s1 = queue s
         \<and> (\<exists>g'. run calls (g, s1) = Returns (g', s1))"
  using Stop_Returns [OF assms]
  by (simp add: Send_stopped Receive_stopped run_stopped)

theorem no_ok_after_stop_witness:
  "\<exists>s1. Stop (with_queue [entry_of (7::nat) 42 (1000::nat)] (fresh_stream 1)) = Returns (None, s1)
     \<and> Send initial_globals undisturbed s1 8 43 1001 0 =
           Returns (ErrorTypeStreamStopped, Some ErrStreamStopped, s1)
     \<and> Send initial_globals undisturbed s1 8 43 1001 5 =
           Returns (ErrorTypeStreamStopped, Some ErrStreamStopped, s1)
     \<and> Receive 0 s1 30 = Returns (None, ErrorTypeStreamStopped, Some ErrStreamStopped, s1)
     \<and> queue s1 = [entry_of 7 42 1000]"
proof -
  let ?s = "with_queue [entry_of (7::nat) 42 (1000::nat)] (fresh_stream 1)"
  obtain s1 where 1: "Stop ?s = Returns (None, s1)"
    by (simp add: Stop_def chan_close_def with_queue_def fresh_stream_def)
  from no_ok_after_stop [OF 1] 1 show ?thesis by simp
qed

subsection \<open>Circular mode on a stream of capacity 0\<close>

text \<open>
  C4. On a stream that is not stopped and has capacity 0, a \<^verbatim>\<open>Send\<close> in circular
  mode (\<open>blockingWriteTimeoutSeconds \<le> 0\<close>) returns \<open>ErrorTypeInvalidRequest\<close> with
  an error, and the stream it leaves is the stream it found: same queue, same flags.
\<close>

theorem circular_send_capacity_zero_rejected:
  assumes "\<not> stopped s" and "capacity s = 0" and "blockingWriteTimeoutSeconds \<le> 0"
  shows "Send g env s output outputUuid timestamp blockingWriteTimeoutSeconds =
           Returns (ErrorTypeInvalidRequest, Some ErrZeroCapacity, s)"
  using assms by (simp add: Send_def sendCircularBufferWithChannel_def)

theorem circular_send_capacity_zero_rejected_witness:
  "Send initial_globals undisturbed (fresh_stream 0) (7::nat) 42 (1000::nat) 0 =
     Returns (ErrorTypeInvalidRequest, Some ErrZeroCapacity, fresh_stream 0)"
  using circular_send_capacity_zero_rejected
    [of "fresh_stream 0 :: (nat, nat) InMemoryStreamImpl" 0 initial_globals undisturbed 7 42 1000]
  by simp

subsection \<open>The discipline of a send\<close>



subsection \<open>The iteration cap of the overwrite loop\<close>



subsection \<open>Timeouts\<close>

text \<open>
  C7, as the code has it. A \<^verbatim>\<open>Receive\<close> on a stream that is not stopped and stays
  empty until the deadline returns no response, the error kind
  \<open>ErrorTypeWaitingTimeout\<close> and a \<^verbatim>\<open>nil\<close> error, and leaves the stream as it
  is. \<open>ErrorTypeWaitingTimeout\<close> is also the kind a blocking \<^verbatim>\<open>Send\<close> returns
  when the stream stays full until its deadline, there together with an error: the two
  timeouts share one error kind.
\<close>

theorem receive_timeout_is_waiting_timeout:
  assumes "stream_inv r" and "\<not> stopped r" and "queue r = []"
    and "stream_inv s" and "\<not> stopped s" and "int (length (queue s)) = capacity s"
    and "0 < blockingWriteTimeoutSeconds"
  shows "Receive p r timeoutSeconds = Returns (None, ErrorTypeWaitingTimeout, None, r)
         \<and> Send g env s output outputUuid timestamp blockingWriteTimeoutSeconds =
             Returns (ErrorTypeWaitingTimeout, Some ErrTimeoutWaitingForSpace, s)
         \<and> receive_errorType (Receive p r timeoutSeconds) =
             send_errorType (Send g env s output outputUuid timestamp blockingWriteTimeoutSeconds)"
  using assms
  by (simp add: Receive_empty Send_blocking_full receive_errorType_def send_errorType_def)

theorem receive_timeout_is_waiting_timeout_witness:
  "Receive 0 (fresh_stream 1 :: (nat, nat) InMemoryStreamImpl) 30 =
     Returns (None, ErrorTypeWaitingTimeout, None, fresh_stream 1)
   \<and> Send initial_globals undisturbed
       (with_queue [entry_of (1::nat) 11 (101::nat)] (fresh_stream 1)) 2 12 102 5 =
     Returns (ErrorTypeWaitingTimeout, Some ErrTimeoutWaitingForSpace,
              with_queue [entry_of 1 11 101] (fresh_stream 1))"
proof -
  let ?r = "fresh_stream 1 :: (nat, nat) InMemoryStreamImpl"
  let ?s = "with_queue [entry_of (1::nat) 11 (101::nat)] (fresh_stream 1)"
  have r: "stream_inv ?r" "\<not> stopped ?r" "queue ?r = []" by simp_all
  have s: "stream_inv ?s" "\<not> stopped ?s" "int (length (queue ?s)) = capacity ?s" by simp_all
  have b: "(0::int) < 5" by simp
  from receive_timeout_is_waiting_timeout [OF r s b, of 0 30 initial_globals undisturbed 2 12 102]
  show ?thesis by simp
qed

text \<open>
  The claim as stated asks for two distinct kinds. On an empty stream of capacity 1 a
  receive times out, on a full stream of capacity 1 a blocking send times out, and the
  two calls return the same kind.
\<close>

theorem receive_timeout_distinct_kind_counterexample:
  "receive_errorType (Receive 0 (fresh_stream 1 :: (nat, nat) InMemoryStreamImpl) 30) =
     Some ErrorTypeWaitingTimeout
   \<and> send_errorType (Send initial_globals undisturbed
       (with_queue [entry_of (1::nat) 11 (101::nat)] (fresh_stream 1)) 2 12 102 5) =
     Some ErrorTypeWaitingTimeout
   \<and> \<not> (receive_errorType (Receive 0 (fresh_stream 1 :: (nat, nat) InMemoryStreamImpl) 30) \<noteq>
        send_errorType (Send initial_globals undisturbed
          (with_queue [entry_of (1::nat) 11 (101::nat)] (fresh_stream 1)) 2 12 102 5))"
  by (simp add: receive_errorType_def send_errorType_def Receive_empty Send_blocking_full)

subsection \<open>Stopping twice\<close>

text \<open>
  C8. \<^verbatim>\<open>Stop\<close> returns a \<^verbatim>\<open>nil\<close> error and leaves the stream stopped. A
  \<^verbatim>\<open>Stop\<close> on a stopped stream returns a \<^verbatim>\<open>nil\<close> error and changes
  nothing, so a second \<^verbatim>\<open>Stop\<close>, and any number of them after the first, leaves
  the stream exactly as the first one left it.
\<close>

theorem stop_idempotent:
  fixes s :: "('o::zero, 't::zero) InMemoryStreamImpl"
  assumes "stream_inv s"
  shows "\<exists>s1. Stop s = Returns (None, s1) \<and> stopped s1
           \<and> Stop s1 = Returns (None, s1)
           \<and> (stopped s \<longrightarrow> s1 = s)
           \<and> run (replicate (Suc k) CallStop) (g, s) = Returns (g, s1)"
proof -
  from Stop_inv [OF assms] obtain s1 where 1: "Stop s = Returns (None, s1)"
    and 2: "stopped s1" and 3: "stopped s \<longrightarrow> s1 = s" by blast
  have "run (replicate (Suc k) CallStop) (g, s) = run (replicate k CallStop) (g, s1)"
    using 1 by simp
  then have "run (replicate (Suc k) CallStop) (g, s) = Returns (g, s1)"
    using 2 by (simp only: run_stops_stopped)
  then show ?thesis using 1 2 3 by (simp add: Stop_stopped)
qed

theorem stop_idempotent_witness:
  "\<exists>s1. Stop (with_queue [entry_of (7::nat) 42 (1000::nat)] (fresh_stream 1)) = Returns (None, s1)
     \<and> stopped s1
     \<and> Stop s1 = Returns (None, s1)
     \<and> run (replicate (Suc 2) CallStop)
         (initial_globals, with_queue [entry_of (7::nat) 42 (1000::nat)] (fresh_stream 1)) =
         Returns (initial_globals, s1)"
proof -
  let ?s = "with_queue [entry_of (7::nat) 42 (1000::nat)] (fresh_stream 1)"
  have i: "stream_inv ?s" by simp
  from stop_idempotent [OF i, of 2 initial_globals]
  show ?thesis by (elim exE conjE, intro exI conjI) assumption+
qed

subsection \<open>The bound on the queue\<close>

text \<open>
  C9. Take the stream \<^verbatim>\<open>NewInMemoryStreamImpl(n)\<close> returns and any sequence of
  \<^verbatim>\<open>Send\<close>, \<^verbatim>\<open>Receive\<close>, \<^verbatim>\<open>Stop\<close> and
  \<^verbatim>\<open>SetCircularBufferMaxIterations\<close> calls on it, with any arguments, any choice in
  every \<^verbatim>\<open>select\<close> and any concurrent senders during the overwrite loops. Every
  call of the sequence returns, and after the sequence the stream holds no more entries
  than its capacity, which is still \<open>n\<close>. The sequence is arbitrary, so the bound
  holds between any two calls.
\<close>

theorem queue_never_exceeds_capacity:
  fixes s0 :: "('o::zero, 't::zero) InMemoryStreamImpl"
  assumes "NewInMemoryStreamImpl n = Returns s0"
  shows "\<exists>g' s. run calls (g, s0) = Returns (g', s)
           \<and> int (length (queue s)) \<le> capacity s \<and> capacity s = n"
proof -
  from assms have "stream_inv s0" and "capacity s0 = n" by (simp_all add: New_fresh)
  with run_inv [of s0 calls g] obtain g' s where "run calls (g, s0) = Returns (g', s)"
    and "stream_inv s" and "capacity s = n" by auto
  then show ?thesis by (auto simp add: stream_inv_def queue_def)
qed

theorem queue_never_exceeds_capacity_witness:
  "NewInMemoryStreamImpl 1 = Returns (fresh_stream 1 :: (nat, nat) InMemoryStreamImpl)
   \<and> (\<exists>g' s. run [CallSend undisturbed 1 11 101 0, CallSend undisturbed 2 12 102 0,
                   CallSend undisturbed 3 13 103 5, CallReceive 0 30, CallStop]
                (initial_globals, fresh_stream 1 :: (nat, nat) InMemoryStreamImpl) =
              Returns (g', s)
            \<and> int (length (queue s)) \<le> capacity s \<and> capacity s = 1)"
proof -
  have n: "NewInMemoryStreamImpl 1 = Returns (fresh_stream 1 :: (nat, nat) InMemoryStreamImpl)"
    by (simp add: New_fresh)
  show ?thesis by (rule conjI [OF n queue_never_exceeds_capacity [OF n]])
qed

subsection \<open>An iteration cap of 0\<close>

text \<open>
  C10. After \<^verbatim>\<open>SetCircularBufferMaxIterations(0)\<close>, a circular send on a full
  stream of capacity at least 1 that is not stopped returns
  \<open>ErrorTypeCircularBufferIterationLimit\<close> and leaves the stream as it found it: the
  loop compares the counter with the cap before its first dequeue, so no entry is removed
  and the new entry is not enqueued, whatever concurrent senders are waiting.
\<close>

theorem iteration_cap_zero_leaves_full_buffer_unchanged:
  assumes "stream_inv s" and "\<not> stopped s" and "1 \<le> capacity s"
    and "int (length (queue s)) = capacity s" and "blockingWriteTimeoutSeconds \<le> 0"
  shows "Send (SetCircularBufferMaxIterations 0 g) env s output outputUuid timestamp
           blockingWriteTimeoutSeconds =
           Returns (ErrorTypeCircularBufferIterationLimit, Some (ErrStillFull 1), s)"
  using assms
  by (simp add: SetCircularBufferMaxIterations_def Send_circular_full circular_loop_full)

theorem iteration_cap_zero_leaves_full_buffer_unchanged_witness:
  "Send (SetCircularBufferMaxIterations 0 initial_globals) undisturbed
     (with_queue [entry_of (1::nat) 11 (101::nat)] (fresh_stream 1)) 4 14 104 0 =
     Returns (ErrorTypeCircularBufferIterationLimit, Some (ErrStillFull 1),
              with_queue [entry_of 1 11 101] (fresh_stream 1))"
proof -
  let ?s = "with_queue [entry_of (1::nat) 11 (101::nat)] (fresh_stream 1)"
  have i: "stream_inv ?s" "\<not> stopped ?s" "1 \<le> capacity ?s" "int (length (queue ?s)) = capacity ?s"
    by simp_all
  have z: "(0::int) \<le> 0" by simp
  from iteration_cap_zero_leaves_full_buffer_unchanged
    [OF i z, of initial_globals undisturbed 4 14 104]
  show ?thesis by simp
qed

end
